theory Spec2Isabelle
  imports Main
begin

section \<open>Tokens (include/json/lexer.hpp)\<close>

datatype JsonTokenType =
    TOK_LEFT_BRACE
  | TOK_RIGHT_BRACE
  | TOK_COLON
  | TOK_COMMA
  | TOK_STR_VAL
  | TOK_NUMBER

text \<open>The struct \<open>JsonToken\<close>: its constructor takes the type and the content.\<close>

datatype JsonToken = JsonToken (type: JsonTokenType) (content: string)

section \<open>The lexer: \<open>JsonLexer::scan\<close>\<close>

text \<open>
  \<open>scan\<close> has no error channel of its own: on a lexical error it prints a message and
  returns the empty vector. The model keeps the message as the error value; \<open>scan_tokens\<close>
  below is the vector the caller receives.
\<close>

datatype lex_error =
    TruncatedNumber       \<comment> \<open>"Json file ended with a number, not with a '}'"\<close>
  | UnexpectedCharacter char  \<comment> \<open>"Unknown character in json string"\<close>
  | UnterminatedString    \<comment> \<open>"Unterminated string value at the end of the json string"\<close>

definition is_digit :: "char \<Rightarrow> bool" where
  "is_digit c \<longleftrightarrow> (48::nat) \<le> of_char c \<and> of_char c \<le> (57::nat)"

text \<open>\<open>std::string::substr(pos, count)\<close> for \<open>pos \<le> size\<close> (always the case in \<open>scan\<close>).\<close>

definition substr :: "string \<Rightarrow> nat \<Rightarrow> nat \<Rightarrow> string" where
  "substr s pos count = take count (drop pos s)"

text \<open>
  The inner loop of the number branch:
  \<^verbatim>\<open>while (json_string.begin() + end != json_string.end() && is_digit(json_string[end])) end++;\<close>
  The cursor never passes the end of the text, so \<open>!=\<close> is \<open><\<close>.
\<close>

function digits_end :: "string \<Rightarrow> nat \<Rightarrow> nat" where
  "digits_end s e = (if e < length s \<and> is_digit (s ! e) then digits_end s (e + 1) else e)"
  by pat_completeness auto
termination
  by (relation "measure (\<lambda>(s, e). length s - e)") auto

declare digits_end.simps [simp del]

text \<open>
  The inner loop of the string branch:
  \<^verbatim>\<open>while (json_string.begin() + end != json_string.end() && json_string[end] != '"') end++;\<close>
\<close>

function quote_end :: "string \<Rightarrow> nat \<Rightarrow> nat" where
  "quote_end s e = (if e < length s \<and> s ! e \<noteq> CHR 0x22 then quote_end s (e + 1) else e)"
  by pat_completeness auto
termination
  by (relation "measure (\<lambda>(s, e). length s - e)") auto

declare quote_end.simps [simp del]

lemma digits_end_ge: "e \<le> digits_end s e"
proof (induction s e rule: digits_end.induct)
  case (1 s e)
  show ?case
  proof (cases "e < length s \<and> is_digit (s ! e)")
    case True
    with "1.IH" have "e + 1 \<le> digits_end s (e + 1)" by simp
    with True show ?thesis by (subst digits_end.simps) simp
  next
    case False
    then show ?thesis by (subst digits_end.simps) auto
  qed
qed

lemma quote_end_ge: "e \<le> quote_end s e"
proof (induction s e rule: quote_end.induct)
  case (1 s e)
  show ?case
  proof (cases "e < length s \<and> s ! e \<noteq> CHR 0x22")
    case True
    with "1.IH" have "e + 1 \<le> quote_end s (e + 1)" by simp
    with True show ?thesis by (subst quote_end.simps) simp
  next
    case False
    then show ?thesis by (subst quote_end.simps) auto
  qed
qed

text \<open>
  The \<open>for\<close> loop of \<open>scan\<close>, with its three variables: the start cursor, the position
  \<open>end\<close> and the token vector. Each recursive call is the next iteration, entered after the
  loop's own \<open>end++\<close>. The cases follow the \<open>switch\<close>; the \<open>default\<close> label comes last
  here, as it is taken only when no \<open>case\<close> matches.
\<close>

function scan_loop :: "string \<Rightarrow> nat \<Rightarrow> nat \<Rightarrow> JsonToken list \<Rightarrow> lex_error + JsonToken list" where
  "scan_loop s start e tokens =
    (if e < length s then
       (let c = s ! e in
        if c = CHR ''\<newline>'' \<or> c = CHR 0x09 \<or> c = CHR 0x0D \<or> c = CHR '' '' then
          scan_loop s e (e + 1) tokens
        else if c = CHR ''{'' then
          scan_loop s e (e + 1) (tokens @ [JsonToken TOK_LEFT_BRACE ''{''])
        else if c = CHR ''}'' then
          scan_loop s e (e + 1) (tokens @ [JsonToken TOK_RIGHT_BRACE ''}''])
        else if c = CHR '':'' then
          scan_loop s e (e + 1) (tokens @ [JsonToken TOK_COLON '':''])
        else if c = CHR '','' then
          scan_loop s e (e + 1) (tokens @ [JsonToken TOK_COMMA '',''])
        else if c = CHR 0x22 then
          (let e1 = quote_end s (e + 1) in
           if e1 = length s then Inl UnterminatedString
           else scan_loop s e1 (e1 + 1)
                  (tokens @ [JsonToken TOK_STR_VAL (substr s (e + 1) (e1 - (e + 1)))]))
        else if is_digit c then
          (let e1 = digits_end s (e + 1) in
           if e1 = length s then Inl TruncatedNumber
           else scan_loop s e1 (e1 + 1)
                  (tokens @ [JsonToken TOK_NUMBER (substr s start (e1 - start))]))
        else Inl (UnexpectedCharacter c))
     else Inr tokens)"
  by pat_completeness auto
termination
proof (relation "measure (\<lambda>(s, start, e, tokens). length s - e)", goal_cases)
  case 1
  show ?case by simp
next
  case (7 s start e tokens c e1)
  have "e + 1 \<le> quote_end s (e + 1)" by (rule quote_end_ge)
  with 7 show ?case by simp
next
  case (8 s start e tokens c e1)
  have "e + 1 \<le> digits_end s (e + 1)" by (rule digits_end_ge)
  with 8 show ?case by simp
qed simp_all

declare scan_loop.simps [simp del]

text \<open>\<open>scan\<close> on the text of the file (loading the file is the caller's side).\<close>

definition scan :: "string \<Rightarrow> lex_error + JsonToken list" where
  "scan json_string = scan_loop json_string 0 0 []"

definition scan_tokens :: "string \<Rightarrow> JsonToken list" where
  "scan_tokens json_string = (case scan json_string of Inl err \<Rightarrow> [] | Inr tokens \<Rightarrow> tokens)"

section \<open>The value tree (include/json/parser.hpp)\<close>

text \<open>
  The classes \<open>JsonGroup\<close>, \<open>JsonString\<close> and \<open>JsonNumber\<close> derived from \<open>JsonObject\<close>;
  \<open>dynamic_cast\<close> is a case distinction on the constructor. The \<open>int\<close> of a
  \<open>JsonNumber\<close> is kept in range by \<open>stoi\<close> below.
\<close>

datatype JsonObject =
    JsonGroup string "JsonObject list"
  | JsonString string string
  | JsonNumber string int

text \<open>The reserved name that marks the synthetic root group.\<close>

definition root_name :: string where
  "root_name = ''__ROOT__''"

section \<open>The parser: \<open>JsonParser::parse\<close>\<close>

text \<open>
  \<open>parse\<close> returns \<open>std::nullopt\<close> after printing a message (\<open>ExpectedColon\<close>,
  \<open>DoubleNaming\<close>); it aborts on \<open>assert(false)\<close> (\<open>MalformedField\<close>) and on an exception
  of \<open>std::stoi\<close> (\<open>InvalidNumber\<close>, \<open>NumberOutOfRange\<close>); and it reads \<open>tokens[i]\<close>
  without a bounds check, which past the end of the vector is undefined behaviour
  (\<open>OutOfBounds\<close>: the model stops there).
\<close>

datatype parse_error =
    ExpectedColon
  | DoubleNaming
  | MalformedField
  | InvalidNumber
  | NumberOutOfRange
  | OutOfBounds

text \<open>
  \<open>std::stoi\<close> of the standard library, base 10: skips leading white space, takes an
  optional sign and the longest run of digits, throws \<open>invalid_argument\<close> when there is
  no digit and \<open>out_of_range\<close> when the value does not fit an \<open>int\<close>.
\<close>

definition is_space :: "char \<Rightarrow> bool" where
  "is_space c \<longleftrightarrow> c = CHR '' '' \<or> c = CHR 0x09 \<or> c = CHR ''\<newline>'' \<or> c = CHR 0x0B
     \<or> c = CHR 0x0C \<or> c = CHR 0x0D"

definition digits_value :: "string \<Rightarrow> int" where
  "digits_value ds = foldl (\<lambda>acc c. acc * 10 + (int (of_char c) - 48)) 0 ds"

definition stoi :: "string \<Rightarrow> parse_error + int" where
  "stoi str =
    (let s1 = dropWhile is_space str;
         negative = (s1 \<noteq> [] \<and> hd s1 = CHR ''-'');
         s2 = (if s1 \<noteq> [] \<and> (hd s1 = CHR ''-'' \<or> hd s1 = CHR ''+'') then tl s1 else s1);
         ds = takeWhile is_digit s2;
         v = (if negative then - digits_value ds else digits_value ds)
     in if ds = [] then Inl InvalidNumber
        else if v < - 2147483648 \<or> 2147483647 < v then Inl NumberOutOfRange
        else Inr v)"

text \<open>
  The depth-matching loop, which occurs twice in \<open>parse\<close>:
  \<^verbatim>\<open>while (end_idx < tokens.size() && brace_depth > 0) { ...; end_idx++; }\<close>
  It yields the final \<open>end_idx\<close> and \<open>brace_depth\<close>.
\<close>

function match_brace :: "JsonToken list \<Rightarrow> nat \<Rightarrow> int \<Rightarrow> nat \<times> int" where
  "match_brace tokens end_idx brace_depth =
    (if end_idx < length tokens \<and> brace_depth > 0 then
       match_brace tokens (end_idx + 1)
         (if type (tokens ! end_idx) = TOK_LEFT_BRACE then brace_depth + 1
          else if type (tokens ! end_idx) = TOK_RIGHT_BRACE then brace_depth - 1
          else brace_depth)
     else (end_idx, brace_depth))"
  by pat_completeness auto
termination
  by (relation "measure (\<lambda>(tokens, end_idx, brace_depth). length tokens - end_idx)") auto

declare match_brace.simps [simp del]

text \<open>
  \<open>extract_from_to\<close> returns the tokens \<open>[from, to)\<close> and erases them from the vector it
  was given: the model returns the extraction and the vector that is left. Both
  assertions (\<open>to \<ge> from\<close>, \<open>to \<le> tokens.size()\<close>) hold at the two call sites.
\<close>

definition extract_from_to :: "JsonToken list \<Rightarrow> nat \<Rightarrow> nat \<Rightarrow> JsonToken list \<times> JsonToken list" where
  "extract_from_to tokens from to =
    (if to = from then ([], tokens)
     else (take (to - from) (drop from tokens), take from tokens @ drop to tokens))"

text \<open>The end of \<open>parse\<close>: the sibling list becomes the returned object.\<close>

definition parse_result :: "JsonObject list \<Rightarrow> JsonObject" where
  "parse_result objects =
    (case objects of
       [object] \<Rightarrow>
         (case object of
            JsonGroup name fields \<Rightarrow>
              if name = root_name then object else JsonGroup root_name objects
          | _ \<Rightarrow> JsonGroup root_name objects)
     | _ \<Rightarrow> JsonGroup root_name objects)"

lemma match_brace_ge: "end_idx \<le> fst (match_brace tokens end_idx brace_depth)"
proof (induction tokens end_idx brace_depth rule: match_brace.induct)
  case (1 tokens end_idx brace_depth)
  show ?case
  proof (cases "end_idx < length tokens \<and> brace_depth > 0")
    case True
    from "1.IH" [OF True] True show ?thesis
      by (subst match_brace.simps) (simp del: One_nat_def)
  next
    case False
    then show ?thesis by (subst match_brace.simps) auto
  qed
qed

lemma match_brace_gt:
  assumes "end_idx < length tokens" and "brace_depth > 0"
  shows "end_idx < fst (match_brace tokens end_idx brace_depth)"
proof -
  let ?d = "if type (tokens ! end_idx) = TOK_LEFT_BRACE then brace_depth + 1
            else if type (tokens ! end_idx) = TOK_RIGHT_BRACE then brace_depth - 1
            else brace_depth"
  have "end_idx + 1 \<le> fst (match_brace tokens (end_idx + 1) ?d)"
    by (rule match_brace_ge)
  moreover have "match_brace tokens end_idx brace_depth = match_brace tokens (end_idx + 1) ?d"
    using assms by (subst match_brace.simps) simp
  ultimately show ?thesis by simp
qed

lemma match_brace_le:
  "end_idx \<le> length tokens \<Longrightarrow> fst (match_brace tokens end_idx brace_depth) \<le> length tokens"
proof (induction tokens end_idx brace_depth rule: match_brace.induct)
  case (1 tokens end_idx brace_depth)
  show ?case
  proof (cases "end_idx < length tokens \<and> brace_depth > 0")
    case True
    from "1.IH" [OF True] True show ?thesis
      by (subst match_brace.simps) (simp del: One_nat_def)
  next
    case False
    with "1.prems" show ?thesis by (subst match_brace.simps) auto
  qed
qed

lemma extract_lengths:
  assumes "from \<le> to"
  shows "length (fst (extract_from_to tokens from to)) \<le> length tokens - from"
    and "length (snd (extract_from_to tokens from to)) \<le> length tokens"
  using assms by (auto simp: extract_from_to_def)

text \<open>
  The \<open>for\<close> loop of \<open>parse\<close> over the vector it erases from: the state is the vector, the
  index \<open>i\<close> and the sibling list \<open>objects\<close>; the result is the sibling list at the end of
  the loop. A recursive call of \<open>parse\<close> on an extracted span is the loop from index 0 with
  no siblings, followed by \<open>parse_result\<close>; its failure is passed on
  ("Failed to parse group object").
\<close>

function parse_loop :: "JsonToken list \<Rightarrow> nat \<Rightarrow> JsonObject list \<Rightarrow> parse_error + JsonObject list" where
  "parse_loop tokens i objects =
    (if i < length tokens then
       (if type (tokens ! i) = TOK_LEFT_BRACE then
          (let end_idx = fst (match_brace tokens (i + 1) 1) in
           if i + 1 \<ge> length tokens then Inr objects
           else
             (let group_tokens = fst (extract_from_to tokens (i + 1) (end_idx - 1));
                  tokens' = snd (extract_from_to tokens (i + 1) (end_idx - 1)) in
              case parse_loop group_tokens 0 [] of
                Inl err \<Rightarrow> Inl err
              | Inr group_objects \<Rightarrow>
                  parse_loop tokens' (i + 2) (objects @ [parse_result group_objects])))
        else if type (tokens ! i) = TOK_STR_VAL then
          (let identifier = content (tokens ! i) in
           if i + 1 \<ge> length tokens then Inl OutOfBounds
           else if type (tokens ! (i + 1)) \<noteq> TOK_COLON then Inl ExpectedColon
           else if i + 2 \<ge> length tokens then Inl OutOfBounds
           else if type (tokens ! (i + 2)) = TOK_NUMBER then
             (case stoi (content (tokens ! (i + 2))) of
                Inl err \<Rightarrow> Inl err
              | Inr number \<Rightarrow> parse_loop tokens (i + 3) (objects @ [JsonNumber identifier number]))
           else if type (tokens ! (i + 2)) = TOK_STR_VAL then
             parse_loop tokens (i + 3) (objects @ [JsonString identifier (content (tokens ! (i + 2)))])
           else if type (tokens ! (i + 2)) = TOK_LEFT_BRACE then
             (let end_idx = fst (match_brace tokens (i + 3) 1) in
              if i + 3 \<ge> length tokens then Inr objects
              else
                (let group_tokens = fst (extract_from_to tokens (i + 3) (end_idx - 1));
                     tokens' = snd (extract_from_to tokens (i + 3) (end_idx - 1)) in
                 case parse_loop group_tokens 0 [] of
                   Inl err \<Rightarrow> Inl err
                 | Inr group_objects \<Rightarrow>
                     (case parse_result group_objects of
                        JsonGroup name fields \<Rightarrow>
                          if name \<noteq> root_name then Inl DoubleNaming
                          else parse_loop tokens' (i + 4) (objects @ [JsonGroup identifier fields])
                      | group_object \<Rightarrow> parse_loop tokens' (i + 4) (objects @ [group_object]))))
           else Inl MalformedField)
        else parse_loop tokens (i + 1) objects)
     else Inr objects)"
  by pat_completeness auto

termination
proof (relation "measure (\<lambda>(tokens, i, objects). length tokens - i)", goal_cases)
  case 1
  show ?case by simp
next
  case (2 tokens i objects end_idx group_tokens tokens')
  then have "i + 1 < end_idx" using match_brace_gt [of "i + 1" tokens 1] by simp
  then have "length group_tokens \<le> length tokens - (i + 1)"
    using 2 extract_lengths(1) [of "i + 1" "end_idx - 1" tokens] by simp
  with 2 show ?case by simp
next
  case (3 tokens i objects end_idx group_tokens tokens' group_objects)
  then have "i + 1 < end_idx" using match_brace_gt [of "i + 1" tokens 1] by simp
  then have "length tokens' \<le> length tokens"
    using 3 extract_lengths(2) [of "i + 1" "end_idx - 1" tokens] by simp
  with 3 show ?case by simp
next
  case (6 tokens i objects ident end_idx group_tokens tokens')
  then have "i + 3 < end_idx" using match_brace_gt [of "i + 3" tokens 1] by simp
  then have "length group_tokens \<le> length tokens - (i + 3)"
    using 6 extract_lengths(1) [of "i + 3" "end_idx - 1" tokens] by simp
  with 6 show ?case by simp
next
  case (7 tokens i objects ident end_idx group_tokens tokens' group_objects name fields)
  then have "i + 3 < end_idx" using match_brace_gt [of "i + 3" tokens 1] by simp
  then have "length tokens' \<le> length tokens"
    using 7 extract_lengths(2) [of "i + 3" "end_idx - 1" tokens] by simp
  with 7 show ?case by simp
next
  case (8 tokens i objects ident end_idx group_tokens tokens' group_objects name v)
  then have "i + 3 < end_idx" using match_brace_gt [of "i + 3" tokens 1] by simp
  then have "length tokens' \<le> length tokens"
    using 8 extract_lengths(2) [of "i + 3" "end_idx - 1" tokens] by simp
  with 8 show ?case by simp
next
  case (9 tokens i objects ident end_idx group_tokens tokens' group_objects name v)
  then have "i + 3 < end_idx" using match_brace_gt [of "i + 3" tokens 1] by simp
  then have "length tokens' \<le> length tokens"
    using 9 extract_lengths(2) [of "i + 3" "end_idx - 1" tokens] by simp
  with 9 show ?case by simp
qed simp_all

declare parse_loop.simps [simp del]

text \<open>\<open>parse\<close>: the loop from index 0 with an empty sibling list, then the root rule.\<close>

definition parse :: "JsonToken list \<Rightarrow> parse_error + JsonObject" where
  "parse tokens =
    (case parse_loop tokens 0 [] of
       Inl err \<Rightarrow> Inl err
     | Inr objects \<Rightarrow> Inr (parse_result objects))"

section \<open>The renderer: \<open>JsonParser::to_string\<close>\<close>

text \<open>A name or value between double quotes, as written by \<open>"\"" << name << "\""\<close>.\<close>

definition quoted :: "string \<Rightarrow> string" where
  "quoted str = CHR 0x22 # str @ [CHR 0x22]"

text \<open>\<open>std::string(indent_lvl, '\t')\<close>.\<close>

definition indent :: "nat \<Rightarrow> string" where
  "indent indent_lvl = replicate indent_lvl (CHR 0x09)"

text \<open>The stream output of an \<open>int\<close>: decimal digits, with a minus sign when negative.\<close>

function nat_to_string :: "nat \<Rightarrow> string" where
  "nat_to_string n =
    (if n < 10 then [char_of (48 + n)]
     else nat_to_string (n div 10) @ [char_of (48 + n mod 10)])"
  by pat_completeness auto
termination
  by (relation "measure (\<lambda>n. n)") auto

declare nat_to_string.simps [simp del]

definition int_to_string :: "int \<Rightarrow> string" where
  "int_to_string number =
    (if number < 0 then CHR ''-'' # nat_to_string (nat (- number))
     else nat_to_string (nat number))"

text \<open>
  \<open>to_string\<close> and the loop over \<open>group->fields\<close> inside it. In the loop, \<open>first\<close> says
  that the iterator is at \<open>begin()\<close>; the iterator is at \<open>prev(end())\<close> when no field
  follows.
\<close>

fun to_string :: "JsonObject \<Rightarrow> nat \<Rightarrow> string"
  and fields_to_string :: "JsonObject list \<Rightarrow> bool \<Rightarrow> nat \<Rightarrow> string" where
  "to_string (JsonGroup name fields) indent_lvl =
     (if name \<noteq> root_name then indent indent_lvl @ quoted name @ '': ''
      else indent indent_lvl)
     @ ''{'' @ [CHR ''\<newline>'']
     @ fields_to_string fields True indent_lvl
     @ indent indent_lvl @ ''}''"
| "to_string (JsonString name str) indent_lvl =
     indent indent_lvl @ quoted name @ '': '' @ quoted str"
| "to_string (JsonNumber name number) indent_lvl =
     indent indent_lvl @ quoted name @ '': '' @ int_to_string number"
| "fields_to_string [] first indent_lvl = []"
| "fields_to_string (field # rest) first indent_lvl =
     (if \<not> first then '','' @ [CHR ''\<newline>''] else [])
     @ to_string field (indent_lvl + 1)
     @ (if rest = [] then [CHR ''\<newline>''] else [])
     @ fields_to_string rest False indent_lvl"

text \<open>
  The caller (\<open>main\<close>): scan the text, parse the tokens, print the rendering of the tree.
\<close>

definition render_parse_scan :: "string \<Rightarrow> parse_error + string" where
  "render_parse_scan json_string =
    (case parse (scan_tokens json_string) of
       Inl err \<Rightarrow> Inl err
     | Inr object \<Rightarrow> Inr (to_string object 0))"

text \<open>The tokens as \<open>scan\<close> builds them, for the examples.\<close>

abbreviation LBRACE :: JsonToken where "LBRACE \<equiv> JsonToken TOK_LEFT_BRACE ''{''"
abbreviation RBRACE :: JsonToken where "RBRACE \<equiv> JsonToken TOK_RIGHT_BRACE ''}''"
abbreviation COLON :: JsonToken where "COLON \<equiv> JsonToken TOK_COLON '':''"
abbreviation COMMA :: JsonToken where "COMMA \<equiv> JsonToken TOK_COMMA '',''"
abbreviation STRVAL :: "string \<Rightarrow> JsonToken" where "STRVAL str \<equiv> JsonToken TOK_STR_VAL str"
abbreviation NUMBER :: "string \<Rightarrow> JsonToken" where "NUMBER str \<equiv> JsonToken TOK_NUMBER str"

text \<open>
  A span of tokens that lies strictly inside one pair of braces: read from depth 1, the
  depth counter of the matching loop never reaches 0 inside the span and is 1 at its end,
  so that the next right brace is the matching one.
\<close>

fun inside_braces :: "int \<Rightarrow> JsonToken list \<Rightarrow> bool" where
  "inside_braces depth [] \<longleftrightarrow> depth = 1"
| "inside_braces depth (tok # rest) \<longleftrightarrow>
     (let depth' = (if type tok = TOK_LEFT_BRACE then depth + 1
                    else if type tok = TOK_RIGHT_BRACE then depth - 1
                    else depth)
      in 0 < depth' \<and> inside_braces depth' rest)"

section \<open>The root rule\<close>

lemma parse_result_is_root: "\<exists>fields. parse_result objects = JsonGroup root_name fields"
  by (auto simp: parse_result_def split: list.splits JsonObject.splits)

lemma parse_result_cases:
  "parse_result objects =
    (if \<exists>fields. objects = [JsonGroup root_name fields] then hd objects
     else JsonGroup root_name objects)"
  by (auto simp: parse_result_def split: list.splits JsonObject.splits)

lemma parse_name_value:
  "parse [STRVAL ''a'', COLON, NUMBER ''1''] = Inr (JsonGroup ''__ROOT__'' [JsonNumber ''a'' 1])"
  by code_simp

lemma parse_loop_braced:
  "parse_loop [LBRACE, STRVAL ''a'', COLON, STRVAL ''x'', RBRACE] 0 []
     = Inr [JsonGroup root_name [JsonString ''a'' ''x'']]"
  by code_simp

lemma parse_loop_siblings:
  "parse_loop [STRVAL ''a'', COLON, STRVAL ''x'', STRVAL ''b'', COLON, STRVAL ''y''] 0 []
     = Inr [JsonString ''a'' ''x'', JsonString ''b'' ''y'']"
  by code_simp

lemma parse_loop_after_comma:
  "parse_loop [COMMA, STRVAL ''a'', COLON, STRVAL ''x''] 1 [] = Inr [JsonString ''a'' ''x'']"
  by code_simp

text \<open>
  Claim C10. Whenever \<open>parse\<close> returns a value rather than failing, the returned node is a
  \<open>JsonGroup\<close> whose name is the sentinel string \<open>"__ROOT__"\<close>.
\<close>

theorem parse_returns_root_group:
  "parse tokens = Inr object \<Longrightarrow> \<exists>fields. object = JsonGroup ''__ROOT__'' fields"
  using parse_result_is_root
  by (auto simp: parse_def root_name_def split: sum.splits)

theorem parse_returns_root_group_witness:
  "parse [STRVAL ''a'', COLON, NUMBER ''1''] = Inr (JsonGroup ''__ROOT__'' [JsonNumber ''a'' 1])
   \<and> (\<exists>fields. JsonGroup ''__ROOT__'' [JsonNumber ''a'' 1] = JsonGroup ''__ROOT__'' fields)"
  using parse_returns_root_group [OF parse_name_value] parse_name_value by simp

text \<open>
  Claim C5 (root unwrapping). When the sibling list built by one invocation of \<open>parse\<close>
  holds exactly one node and that node is a group carrying the root marker, \<open>parse\<close>
  returns that group itself; in every other case it returns a new group carrying the root
  marker whose children are the whole sibling list, in order.
\<close>

theorem parse_root_unwrapping:
  assumes "parse_loop tokens 0 [] = Inr objects"
  shows "(length objects = 1 \<and> (\<exists>fields. hd objects = JsonGroup root_name fields)
            \<longrightarrow> parse tokens = Inr (hd objects))
       \<and> (\<not> (length objects = 1 \<and> (\<exists>fields. hd objects = JsonGroup root_name fields))
            \<longrightarrow> parse tokens = Inr (JsonGroup root_name objects))"
proof -
  have "parse tokens = Inr (parse_result objects)"
    using assms by (simp add: parse_def)
  moreover have "(\<exists>fields. objects = [JsonGroup root_name fields])
      \<longleftrightarrow> length objects = 1 \<and> (\<exists>fields. hd objects = JsonGroup root_name fields)"
    by (cases objects) auto
  ultimately show ?thesis
    by (simp add: parse_result_cases)
qed

theorem parse_root_unwrapping_witness:
  "parse [LBRACE, STRVAL ''a'', COLON, STRVAL ''x'', RBRACE]
     = Inr (JsonGroup root_name [JsonString ''a'' ''x''])
   \<and> parse [STRVAL ''a'', COLON, STRVAL ''x'', STRVAL ''b'', COLON, STRVAL ''y'']
     = Inr (JsonGroup root_name [JsonString ''a'' ''x'', JsonString ''b'' ''y''])"
  using parse_root_unwrapping [OF parse_loop_braced] parse_root_unwrapping [OF parse_loop_siblings]
  by simp

text \<open>
  Claim C9 (stray tokens). A comma, right brace, colon or number token met at the top of
  the iteration of \<open>parse\<close> is accepted silently: the loop neither fails nor appends a
  node, and goes on with the next token.
\<close>

theorem parse_skips_stray_token:
  assumes "i < length tokens"
    and "type (tokens ! i) \<in> {TOK_COMMA, TOK_RIGHT_BRACE, TOK_COLON, TOK_NUMBER}"
  shows "parse_loop tokens i objects = parse_loop tokens (i + 1) objects"
  using assms by (subst parse_loop.simps) auto

theorem parse_skips_stray_token_witness:
  "parse_loop [COMMA, STRVAL ''a'', COLON, STRVAL ''x''] 0 [] = Inr [JsonString ''a'' ''x'']"
  using parse_skips_stray_token [of 0 "[COMMA, STRVAL ''a'', COLON, STRVAL ''x'']" "[]"]
    parse_loop_after_comma
  by simp

section \<open>The lexer on strings and numbers\<close>

lemma quote_end_takeWhile:
  "e \<le> length s \<Longrightarrow> quote_end s e = e + length (takeWhile (\<lambda>c. c \<noteq> CHR 0x22) (drop e s))"
proof (induction s e rule: quote_end.induct)
  case (1 s e)
  show ?case
  proof (cases "e < length s \<and> s ! e \<noteq> CHR 0x22")
    case True
    then have d: "drop e s = s ! e # drop (e + 1) s"
      by (simp add: Cons_nth_drop_Suc)
    from True "1.IH" have "quote_end s (e + 1)
        = e + 1 + length (takeWhile (\<lambda>c. c \<noteq> CHR 0x22) (drop (e + 1) s))"
      by simp
    with True d show ?thesis
      by (subst quote_end.simps) simp
  next
    case False
    show ?thesis
    proof (cases "e < length s")
      case True
      with False have "drop e s = CHR 0x22 # drop (e + 1) s"
        using Cons_nth_drop_Suc [of e s] by simp
      with False True show ?thesis by (subst quote_end.simps) auto
    next
      case False
      with "1.prems" show ?thesis by (subst quote_end.simps) simp
    qed
  qed
qed

lemma digits_end_takeWhile:
  "e \<le> length s \<Longrightarrow> digits_end s e = e + length (takeWhile is_digit (drop e s))"
proof (induction s e rule: digits_end.induct)
  case (1 s e)
  show ?case
  proof (cases "e < length s \<and> is_digit (s ! e)")
    case True
    then have d: "drop e s = s ! e # drop (e + 1) s"
      by (simp add: Cons_nth_drop_Suc)
    from True "1.IH" have "digits_end s (e + 1)
        = e + 1 + length (takeWhile is_digit (drop (e + 1) s))"
      by simp
    with True d show ?thesis
      by (subst digits_end.simps) simp
  next
    case False
    show ?thesis
    proof (cases "e < length s")
      case True
      with False have "drop e s = s ! e # drop (e + 1) s" "\<not> is_digit (s ! e)"
        using Cons_nth_drop_Suc [of e s] by simp_all
      with False True show ?thesis by (subst digits_end.simps) auto
    next
      case False
      with "1.prems" show ?thesis by (subst digits_end.simps) simp
    qed
  qed
qed

lemma length_takeWhile_all:
  "length (takeWhile P xs) = length xs \<longleftrightarrow> (\<forall>x\<in>set xs. P x)"
proof
  assume "length (takeWhile P xs) = length xs"
  then have "takeWhile P xs = xs"
    using takeWhile_eq_take [of P xs] by simp
  then show "\<forall>x\<in>set xs. P x" by (simp add: takeWhile_eq_all_conv)
next
  assume "\<forall>x\<in>set xs. P x"
  then show "length (takeWhile P xs) = length xs" by (induction xs) auto
qed

lemma scan_loop_quote:
  assumes "e < length s" and "s ! e = CHR 0x22"
  shows "scan_loop s start e tokens =
    (let e1 = quote_end s (e + 1) in
     if e1 = length s then Inl UnterminatedString
     else scan_loop s e1 (e1 + 1)
            (tokens @ [STRVAL (substr s (e + 1) (e1 - (e + 1)))]))"
  using assms by (subst scan_loop.simps) simp

lemma is_digit_not_special:
  assumes "is_digit c"
  shows "c \<noteq> CHR ''\<newline>''" "c \<noteq> CHR 0x09" "c \<noteq> CHR 0x0D" "c \<noteq> CHR '' ''"
    "c \<noteq> CHR ''{''" "c \<noteq> CHR ''}''" "c \<noteq> CHR '':''" "c \<noteq> CHR '',''" "c \<noteq> CHR 0x22"
  using assms by (auto simp: is_digit_def)

lemma scan_loop_digit:
  assumes "e < length s" and "is_digit (s ! e)"
  shows "scan_loop s start e tokens =
    (let e1 = digits_end s (e + 1) in
     if e1 = length s then Inl TruncatedNumber
     else scan_loop s e1 (e1 + 1)
            (tokens @ [NUMBER (substr s start (e1 - start))]))"
  using assms is_digit_not_special [OF assms(2)] by (subst scan_loop.simps) simp

lemma scan_loop_end: "\<not> e < length s \<Longrightarrow> scan_loop s start e tokens = Inr tokens"
  by (subst scan_loop.simps) simp

lemma scan_loop_digits_to_end:
  assumes "e < length s" and "\<forall>c\<in>set (drop e s). is_digit c"
  shows "scan_loop s start e tokens = Inl TruncatedNumber"
proof -
  from assms have d: "is_digit (s ! e)"
    by (metis Cons_nth_drop_Suc list.set_intros(1))
  have "\<forall>c\<in>set (drop (e + 1) s). is_digit c"
    using assms(2) by (metis Suc_eq_plus1 in_set_dropD drop_Suc drop_drop set_drop_subset_set_drop subsetD le_add2 add.commute)
  then have "length (takeWhile is_digit (drop (e + 1) s)) = length (drop (e + 1) s)"
    using length_takeWhile_all [of is_digit "drop (e + 1) s"] by blast
  then have "digits_end s (e + 1) = length s"
    using assms(1) digits_end_takeWhile [of "e + 1" s] by simp
  then show ?thesis
    by (simp add: scan_loop_digit [OF assms(1) d])
qed

lemma takeWhile_append_stop:
  assumes "length (takeWhile P xs) < length xs"
  shows "takeWhile P (xs @ ys) = takeWhile P xs"
proof -
  from assms have "\<not> (\<forall>x\<in>set xs. P x)"
    using length_takeWhile_all [of P xs] by auto
  then show ?thesis by (auto intro: takeWhile_append1)
qed

lemma quote_end_append:
  assumes "e \<le> length s" and "quote_end s e < length s"
  shows "quote_end (s @ t) e = quote_end s e"
proof -
  have "length (takeWhile (\<lambda>c. c \<noteq> CHR 0x22) (drop e s)) < length (drop e s)"
    using assms quote_end_takeWhile [of e s] by simp
  then have "takeWhile (\<lambda>c. c \<noteq> CHR 0x22) (drop e s @ t) = takeWhile (\<lambda>c. c \<noteq> CHR 0x22) (drop e s)"
    by (rule takeWhile_append_stop)
  then show ?thesis
    using assms quote_end_takeWhile [of e s] quote_end_takeWhile [of e "s @ t"] by simp
qed

lemma digits_end_append:
  assumes "e \<le> length s" and "digits_end s e < length s"
  shows "digits_end (s @ t) e = digits_end s e"
proof -
  have "length (takeWhile is_digit (drop e s)) < length (drop e s)"
    using assms digits_end_takeWhile [of e s] by simp
  then have "takeWhile is_digit (drop e s @ t) = takeWhile is_digit (drop e s)"
    by (rule takeWhile_append_stop)
  then show ?thesis
    using assms digits_end_takeWhile [of e s] digits_end_takeWhile [of e "s @ t"] by simp
qed

lemma quote_end_le: "e \<le> length s \<Longrightarrow> quote_end s e \<le> length s"
  using quote_end_takeWhile [of e s] length_takeWhile_le [of "\<lambda>c. c \<noteq> CHR 0x22" "drop e s"]
  by simp

lemma digits_end_le: "e \<le> length s \<Longrightarrow> digits_end s e \<le> length s"
  using digits_end_takeWhile [of e s] length_takeWhile_le [of is_digit "drop e s"]
  by simp

lemma substr_append: "e1 \<le> length s \<Longrightarrow> substr (s @ t) start (e1 - start) = substr s start (e1 - start)"
  by (simp add: substr_def)

lemma scan_loop_space:
  assumes "e < length s"
    and "s ! e = CHR ''\<newline>'' \<or> s ! e = CHR 0x09 \<or> s ! e = CHR 0x0D \<or> s ! e = CHR '' ''"
  shows "scan_loop s start e tokens = scan_loop s e (e + 1) tokens"
  using assms by (subst scan_loop.simps) simp

lemma scan_loop_symbol:
  assumes "e < length s"
  shows "s ! e = CHR ''{'' \<Longrightarrow> scan_loop s start e tokens = scan_loop s e (e + 1) (tokens @ [LBRACE])"
    and "s ! e = CHR ''}'' \<Longrightarrow> scan_loop s start e tokens = scan_loop s e (e + 1) (tokens @ [RBRACE])"
    and "s ! e = CHR '':'' \<Longrightarrow> scan_loop s start e tokens = scan_loop s e (e + 1) (tokens @ [COLON])"
    and "s ! e = CHR '','' \<Longrightarrow> scan_loop s start e tokens = scan_loop s e (e + 1) (tokens @ [COMMA])"
  using assms by (subst scan_loop.simps, simp)+

lemma scan_loop_append_digits:
  assumes "ds \<noteq> []" and "\<forall>c\<in>set ds. is_digit c"
  shows "e \<le> length s \<Longrightarrow> scan_loop s start e tokens = Inr r
    \<Longrightarrow> scan_loop (s @ ds) start e tokens = Inl TruncatedNumber"
proof (induction "length s - e" arbitrary: start e tokens rule: less_induct)
  case less
  show ?case
  proof (cases "e < length s")
    case False
    with less.prems have "e = length s" by simp
    then show ?thesis
      using assms by (intro scan_loop_digits_to_end) auto
  next
    case True
    note inside = True
    then have nth: "(s @ ds) ! e = s ! e" and lt: "e < length (s @ ds)"
      by (simp_all add: nth_append)
    note run = less.prems(2)
    have step: "scan_loop (s @ ds) e (e + 1) toks = Inl TruncatedNumber"
      if "scan_loop s e (e + 1) toks = Inr r" for toks
      using less.hyps [of "e + 1" e toks] that inside by simp
    consider (ws) "s ! e = CHR ''\<newline>'' \<or> s ! e = CHR 0x09 \<or> s ! e = CHR 0x0D \<or> s ! e = CHR '' ''"
      | (lb) "s ! e = CHR ''{''" | (rb) "s ! e = CHR ''}''" | (cl) "s ! e = CHR '':''"
      | (cm) "s ! e = CHR '',''"
      | (quote) "s ! e = CHR 0x22"
      | (digit) "is_digit (s ! e)"
      | (other) "\<not> (s ! e = CHR ''\<newline>'' \<or> s ! e = CHR 0x09 \<or> s ! e = CHR 0x0D \<or> s ! e = CHR '' '')"
          "s ! e \<notin> {CHR ''{'', CHR ''}'', CHR '':'', CHR '',''}" "s ! e \<noteq> CHR 0x22" "\<not> is_digit (s ! e)"
      by blast
    then show ?thesis
    proof cases
      case ws
      then have ws': "(s @ ds) ! e = CHR ''\<newline>'' \<or> (s @ ds) ! e = CHR 0x09
          \<or> (s @ ds) ! e = CHR 0x0D \<or> (s @ ds) ! e = CHR '' ''"
        by (simp only: nth)
      from run show ?thesis
        unfolding scan_loop_space [OF inside ws] scan_loop_space [OF lt ws'] by (rule step)
    next
      case lb
      then have lb': "(s @ ds) ! e = CHR ''{''" by (simp only: nth)
      from run show ?thesis
        unfolding scan_loop_symbol(1) [OF inside lb] scan_loop_symbol(1) [OF lt lb'] by (rule step)
    next
      case rb
      then have rb': "(s @ ds) ! e = CHR ''}''" by (simp only: nth)
      from run show ?thesis
        unfolding scan_loop_symbol(2) [OF inside rb] scan_loop_symbol(2) [OF lt rb'] by (rule step)
    next
      case cl
      then have cl': "(s @ ds) ! e = CHR '':''" by (simp only: nth)
      from run show ?thesis
        unfolding scan_loop_symbol(3) [OF inside cl] scan_loop_symbol(3) [OF lt cl'] by (rule step)
    next
      case cm
      then have cm': "(s @ ds) ! e = CHR '',''" by (simp only: nth)
      from run show ?thesis
        unfolding scan_loop_symbol(4) [OF inside cm] scan_loop_symbol(4) [OF lt cm'] by (rule step)
    next
      case quote
      then have quote': "(s @ ds) ! e = CHR 0x22" by (simp only: nth)
      define e1 where "e1 = quote_end s (e + 1)"
      have le: "e1 \<le> length s" and ge: "e + 1 \<le> e1"
        using inside by (simp_all add: e1_def quote_end_le quote_end_ge)
      from run have ne: "e1 \<noteq> length s"
        and next_run: "scan_loop s e1 (e1 + 1) (tokens @ [STRVAL (substr s (e + 1) (e1 - (e + 1)))]) = Inr r"
        unfolding scan_loop_quote [OF inside quote] Let_def e1_def [symmetric]
        by (auto split: if_splits)
      from ne le have lt1: "e1 < length s" by simp
      then have e1': "quote_end (s @ ds) (e + 1) = e1"
        using inside quote_end_append [of "e + 1" s ds] by (simp add: e1_def)
      have "scan_loop (s @ ds) e1 (e1 + 1) (tokens @ [STRVAL (substr s (e + 1) (e1 - (e + 1)))])
          = Inl TruncatedNumber"
        using less.hyps [of "e1 + 1" e1] next_run lt1 ge by simp
      then show ?thesis
        unfolding scan_loop_quote [OF lt quote'] Let_def e1'
        using lt1 le by (simp add: substr_append)
    next
      case digit
      then have digit': "is_digit ((s @ ds) ! e)" by (simp only: nth)
      define e1 where "e1 = digits_end s (e + 1)"
      have le: "e1 \<le> length s" and ge: "e + 1 \<le> e1"
        using inside by (simp_all add: e1_def digits_end_le digits_end_ge)
      from run have ne: "e1 \<noteq> length s"
        and next_run: "scan_loop s e1 (e1 + 1) (tokens @ [NUMBER (substr s start (e1 - start))]) = Inr r"
        unfolding scan_loop_digit [OF inside digit] Let_def e1_def [symmetric]
        by (auto split: if_splits)
      from ne le have lt1: "e1 < length s" by simp
      then have e1': "digits_end (s @ ds) (e + 1) = e1"
        using inside digits_end_append [of "e + 1" s ds] by (simp add: e1_def)
      have "scan_loop (s @ ds) e1 (e1 + 1) (tokens @ [NUMBER (substr s start (e1 - start))])
          = Inl TruncatedNumber"
        using less.hyps [of "e1 + 1" e1] next_run lt1 ge by simp
      then show ?thesis
        unfolding scan_loop_digit [OF lt digit'] Let_def e1'
        using lt1 le by (simp add: substr_append)
    next
      case other
      with inside run show ?thesis
        by (subst (asm) scan_loop.simps) auto
    qed
  qed
qed

lemma scan_unterminated_example:
  "scan (''{'' @ quoted ''a'' @ '': '' @ CHR 0x22 # ''unterminated'') = Inl UnterminatedString"
  by code_simp

lemma scan_backslash_example:
  "scan (CHR 0x22 # ''a'' @ [CHR 0x5C, CHR 0x22] @ ''}'') = Inr [STRVAL (''a'' @ [CHR 0x5C]), RBRACE]"
  by code_simp

lemma scan_prefix_example:
  "scan (''{'' @ quoted ''a'' @ '': '') = Inr [LBRACE, STRVAL ''a'', COLON]"
  by code_simp

lemma scan_empty: "scan [] = Inr []"
  by code_simp

text \<open>
  Claim C3. The claim: scanning \<open>{"a": 1}\<close> yields the five tokens left brace, string
  \<open>a\<close>, colon, number \<open>1\<close>, right brace. The code yields four: the number branch takes
  the token from the stale start cursor, which still points at the character before the
  digits, and leaves \<open>end\<close> on the character after the digit run, which the loop's
  \<open>end++\<close> then skips. So the content is \<open>" 1"\<close> and the closing brace is lost.
\<close>

theorem scan_number_example:
  "scan (''{'' @ quoted ''a'' @ '': 1}'') = Inr [LBRACE, STRVAL ''a'', COLON, NUMBER '' 1'']"
  by code_simp

text \<open>
  Claim C7, as stated: every text that ends in a digit run makes \<open>scan\<close> fail with
  \<open>TruncatedNumber\<close>. It does not hold when an earlier character already stops the scan:
  \<open>x42\<close> fails with \<open>UnexpectedCharacter\<close>.
\<close>

theorem scan_digit_run_after_error:
  "is_digit (CHR ''4'') \<and> is_digit (CHR ''2'') \<and> \<not> is_digit (CHR ''x'')
   \<and> scan ''x42'' = Inl (UnexpectedCharacter (CHR ''x''))"
  by code_simp

text \<open>
  Claim C7, amended: when the text before a final, non-empty digit run scans without
  error, \<open>scan\<close> of the whole text fails with \<open>TruncatedNumber\<close>; no number token is
  returned for that run. The whole file being \<open>42\<close> is the case of an empty text before
  the run.
\<close>

theorem scan_truncated_number:
  assumes "scan pre = Inr tokens" and "ds \<noteq> []" and "\<forall>c\<in>set ds. is_digit c"
  shows "scan (pre @ ds) = Inl TruncatedNumber"
  using scan_loop_append_digits [OF assms(2,3), of 0 pre 0 "[]" tokens] assms(1)
  by (simp add: scan_def)

theorem scan_truncated_number_witness:
  "scan (''{'' @ quoted ''a'' @ '': '' @ ''42'') = Inl TruncatedNumber
   \<and> scan ''42'' = Inl TruncatedNumber"
  using scan_truncated_number [OF scan_prefix_example, of "''42''"]
    scan_truncated_number [OF scan_empty, of "''42''"]
  by (simp add: is_digit_def)

text \<open>
  Claim C8. When the loop of \<open>scan\<close> is at a double quote, the content of the string token
  is exactly the characters up to the next double quote (a backslash does not protect a
  quote), and the loop goes on after that quote; when no double quote follows before the
  end of the text, \<open>scan\<close> fails with \<open>UnterminatedString\<close>. The text
  \<open>{"a": "unterminated\<close> fails so, and in \<open>"a\"}\<close> the literal ends at the quote after
  the backslash.
\<close>

theorem scan_string_literal:
  assumes "e < length s" and "s ! e = CHR 0x22"
  shows "scan_loop s start e tokens =
     (let literal = takeWhile (\<lambda>c. c \<noteq> CHR 0x22) (drop (e + 1) s) in
      if CHR 0x22 \<in> set (drop (e + 1) s)
      then scan_loop s (e + 1 + length literal) (e + 2 + length literal)
             (tokens @ [STRVAL literal])
      else Inl UnterminatedString)
    \<and> scan (''{'' @ quoted ''a'' @ '': '' @ CHR 0x22 # ''unterminated'') = Inl UnterminatedString
    \<and> scan (CHR 0x22 # ''a'' @ [CHR 0x5C, CHR 0x22] @ ''}'')
         = Inr [STRVAL (''a'' @ [CHR 0x5C]), RBRACE]"
proof -
  let ?lit = "takeWhile (\<lambda>c. c \<noteq> CHR 0x22) (drop (e + 1) s)"
  have e1: "quote_end s (e + 1) = e + 1 + length ?lit"
    using assms(1) by (intro quote_end_takeWhile) simp
  have all: "e + 1 + length ?lit = length s \<longleftrightarrow> CHR 0x22 \<notin> set (drop (e + 1) s)"
  proof -
    have "e + 1 + length ?lit = length s \<longleftrightarrow> length ?lit = length (drop (e + 1) s)"
      using assms(1) by auto
    also have "\<dots> \<longleftrightarrow> (\<forall>c\<in>set (drop (e + 1) s). c \<noteq> CHR 0x22)"
      by (rule length_takeWhile_all)
    finally show ?thesis by auto
  qed
  have sub: "substr s (e + 1) (e + 1 + length ?lit - (e + 1)) = ?lit"
    using takeWhile_eq_take [of "\<lambda>c. c \<noteq> CHR 0x22" "drop (e + 1) s"]
    by (simp add: substr_def)
  have "scan_loop s start e tokens =
     (let literal = ?lit in
      if CHR 0x22 \<in> set (drop (e + 1) s)
      then scan_loop s (e + 1 + length literal) (e + 2 + length literal)
             (tokens @ [STRVAL literal])
      else Inl UnterminatedString)"
    unfolding scan_loop_quote [OF assms] e1 Let_def sub
    using all by (simp add: add.commute add.left_commute)
  with scan_unterminated_example scan_backslash_example show ?thesis
    by (simp only: simp_thms)
qed

theorem scan_string_literal_witness:
  "scan_loop (quoted ''a'' @ ''}'') 0 0 [] = scan_loop (quoted ''a'' @ ''}'') 2 3 [STRVAL ''a'']
   \<and> scan_loop (CHR 0x22 # ''ab'') 0 0 [] = Inl UnterminatedString"
  using scan_string_literal [of 0 "quoted ''a'' @ ''}''" 0 "[]"]
    scan_string_literal [of 0 "CHR 0x22 # ''ab''" 0 "[]"]
  by (simp add: quoted_def eval_nat_numeral)

section \<open>Brace matching in the parser\<close>

lemma parse_is_root: "parse tokens = Inr node \<Longrightarrow> \<exists>fields. node = JsonGroup root_name fields"
  using parse_result_is_root by (auto simp: parse_def split: sum.splits)

lemma match_brace_stop: "\<not> (end_idx < length tokens \<and> 0 < brace_depth)
    \<Longrightarrow> match_brace tokens end_idx brace_depth = (end_idx, brace_depth)"
  by (subst match_brace.simps) auto

lemma match_brace_step: "end_idx < length tokens \<Longrightarrow> 0 < brace_depth
    \<Longrightarrow> match_brace tokens end_idx brace_depth =
        match_brace tokens (end_idx + 1)
         (if type (tokens ! end_idx) = TOK_LEFT_BRACE then brace_depth + 1
          else if type (tokens ! end_idx) = TOK_RIGHT_BRACE then brace_depth - 1
          else brace_depth)"
  by (subst match_brace.simps) simp

lemma match_brace_exit:
  "0 < snd (match_brace tokens end_idx brace_depth)
    \<Longrightarrow> length tokens \<le> fst (match_brace tokens end_idx brace_depth)"
proof (induction tokens end_idx brace_depth rule: match_brace.induct)
  case (1 tokens end_idx brace_depth)
  show ?case
  proof (cases "end_idx < length tokens \<and> 0 < brace_depth")
    case True
    with "1.prems" "1.IH" [OF True] show ?thesis
      by (simp add: match_brace_step del: One_nat_def)
  next
    case False
    with "1.prems" show ?thesis
      by (simp add: match_brace_stop)
  qed
qed

lemma match_brace_span:
  assumes "type close = TOK_RIGHT_BRACE"
  shows "inside_braces depth span \<Longrightarrow> 0 < depth
    \<Longrightarrow> match_brace (pre @ span @ close # rest) (length pre) depth
        = (length pre + length span + 1, 0)"
proof (induction span arbitrary: pre depth)
  case Nil
  then have "depth = 1" by simp
  then show ?case
    using assms by (simp add: match_brace_step match_brace_stop)
next
  case (Cons tok span)
  let ?d = "if type tok = TOK_LEFT_BRACE then depth + 1
            else if type tok = TOK_RIGHT_BRACE then depth - 1 else depth"
  from Cons.prems have d: "0 < ?d" and ins: "inside_braces ?d span"
    by (simp_all add: Let_def)
  have "match_brace ((pre @ [tok]) @ span @ close # rest) (length (pre @ [tok])) ?d
      = (length (pre @ [tok]) + length span + 1, 0)"
    by (rule Cons.IH [OF ins d])
  moreover have "match_brace (pre @ (tok # span) @ close # rest) (length pre) depth
      = match_brace (pre @ (tok # span) @ close # rest) (length pre + 1) ?d"
    using Cons.prems(2) by (subst match_brace_step) simp_all
  ultimately show ?case by simp
qed

lemma extract_middle:
  "extract_from_to (xs @ ys @ zs) (length xs) (length xs + length ys) = (ys, xs @ zs)"
  by (auto simp: extract_from_to_def)

lemma parse_loop_brace:
  assumes "i + 1 < length tokens" and "type (tokens ! i) = TOK_LEFT_BRACE"
  shows "parse_loop tokens i objects =
    (let end_idx = fst (match_brace tokens (i + 1) 1);
         extraction = extract_from_to tokens (i + 1) (end_idx - 1)
     in case parse (fst extraction) of
          Inl err \<Rightarrow> Inl err
        | Inr node \<Rightarrow> parse_loop (snd extraction) (i + 2) (objects @ [node]))"
  using assms by (subst parse_loop.simps) (simp add: parse_def Let_def split: sum.splits)

lemma parse_loop_named_brace:
  assumes "i + 3 < length tokens" and "type (tokens ! i) = TOK_STR_VAL"
    and "type (tokens ! (i + 1)) = TOK_COLON" and "type (tokens ! (i + 2)) = TOK_LEFT_BRACE"
  shows "parse_loop tokens i objects =
    (let end_idx = fst (match_brace tokens (i + 3) 1);
         extraction = extract_from_to tokens (i + 3) (end_idx - 1)
     in case parse (fst extraction) of
          Inl err \<Rightarrow> Inl err
        | Inr node \<Rightarrow>
            (case node of
               JsonGroup marker fields \<Rightarrow>
                 parse_loop (snd extraction) (i + 4) (objects @ [JsonGroup (content (tokens ! i)) fields])
             | _ \<Rightarrow> parse_loop (snd extraction) (i + 4) (objects @ [node])))"
proof -
  have root: "parse_result objs = JsonGroup marker fields \<Longrightarrow> marker = root_name" for objs marker fields
    using parse_result_is_root [of objs] by auto
  show ?thesis
    using assms
    by (subst parse_loop.simps)
       (auto simp: parse_def Let_def dest: root split: sum.splits JsonObject.splits)
qed

lemma parse_loop_done: "length tokens \<le> i \<Longrightarrow> parse_loop tokens i objects = Inr objects"
  by (subst parse_loop.simps) simp


lemma parse_nested_example:
  "parse [LBRACE, STRVAL ''a'', COLON, LBRACE, STRVAL ''b'', COLON, NUMBER ''1'', RBRACE, RBRACE]
     = Inr (JsonGroup root_name [JsonGroup ''a'' [JsonNumber ''b'' 1]])"
  by code_simp

lemma parse_number_field:
  "parse [STRVAL ''b'', COLON, NUMBER ''1''] = Inr (JsonGroup root_name [JsonNumber ''b'' 1])"
  by code_simp

text \<open>
  Claim C4. At a name followed by a colon and a left brace, \<open>parse\<close> extracts the span up
  to the matching right brace and parses it on its own; when that fails, \<open>parse\<close> fails;
  otherwise the result is a group with the root marker, and the loop goes on after the
  closing brace with that group's fields appended under the field's name. The tokens of
  \<open>{"a": {"b": 1}}\<close> (left brace, \<open>a\<close>, colon, left brace, \<open>b\<close>, colon, number \<open>1\<close>, two
  right braces) parse to the root group holding the group \<open>a\<close> holding the number field
  \<open>b\<close> with value 1.
\<close>

theorem parse_named_group:
  assumes "inside_braces 1 span"
  shows "((\<exists>err. parse span = Inl err
            \<and> parse_loop (pre @ STRVAL name # COLON # LBRACE # span @ RBRACE # rest) (length pre) objects
                = Inl err)
        \<or> (\<exists>fields. parse span = Inr (JsonGroup root_name fields)
            \<and> parse_loop (pre @ STRVAL name # COLON # LBRACE # span @ RBRACE # rest) (length pre) objects
                = parse_loop (pre @ STRVAL name # COLON # LBRACE # RBRACE # rest) (length pre + 4)
                    (objects @ [JsonGroup name fields])))
      \<and> parse [LBRACE, STRVAL ''a'', COLON, LBRACE, STRVAL ''b'', COLON, NUMBER ''1'', RBRACE, RBRACE]
          = Inr (JsonGroup root_name [JsonGroup ''a'' [JsonNumber ''b'' 1]])"
proof -
  let ?tokens = "pre @ STRVAL name # COLON # LBRACE # span @ RBRACE # rest"
  let ?i = "length pre"
  have tokens: "?tokens = (pre @ [STRVAL name, COLON, LBRACE]) @ span @ RBRACE # rest"
    by simp
  have len: "length (pre @ [STRVAL name, COLON, LBRACE]) = ?i + 3"
    by simp
  have "match_brace ?tokens (?i + 3) 1 = (?i + 3 + length span + 1, 0)"
    unfolding tokens len [symmetric] by (rule match_brace_span) (simp_all add: assms)
  then have end_idx: "fst (match_brace ?tokens (?i + 3) 1) = ?i + 3 + length span + 1"
    by (simp only: fst_conv)
  have extraction: "extract_from_to ?tokens (?i + 3) (?i + 3 + length span + 1 - 1)
      = (span, pre @ STRVAL name # COLON # LBRACE # RBRACE # rest)"
    using extract_middle [of "pre @ [STRVAL name, COLON, LBRACE]" span "RBRACE # rest"]
    by (simp add: numeral_3_eq_3)
  have here: "?i + 3 < length ?tokens" "type (?tokens ! ?i) = TOK_STR_VAL"
    "type (?tokens ! (?i + 1)) = TOK_COLON" "type (?tokens ! (?i + 2)) = TOK_LEFT_BRACE"
    "content (?tokens ! ?i) = name"
    by (simp_all add: nth_append)
  have step: "parse_loop ?tokens ?i objects =
      (case parse span of
         Inl err \<Rightarrow> Inl err
       | Inr node \<Rightarrow>
           (case node of
              JsonGroup marker fields \<Rightarrow>
                parse_loop (pre @ STRVAL name # COLON # LBRACE # RBRACE # rest) (?i + 4)
                  (objects @ [JsonGroup name fields])
            | _ \<Rightarrow> parse_loop (pre @ STRVAL name # COLON # LBRACE # RBRACE # rest) (?i + 4)
                  (objects @ [node])))"
    unfolding parse_loop_named_brace [OF here(1-4)] Let_def end_idx extraction here(5) fst_conv snd_conv
    by (rule refl)
  show ?thesis
  proof (cases "parse span")
    case (Inl err)
    with step show ?thesis by (simp add: parse_nested_example)
  next
    case (Inr node)
    then obtain fields where "node = JsonGroup root_name fields"
      using parse_is_root by blast
    with Inr step show ?thesis by (simp add: parse_nested_example)
  qed
qed

theorem parse_named_group_witness:
  "inside_braces 1 [STRVAL ''b'', COLON, NUMBER ''1'']
   \<and> parse_loop [STRVAL ''a'', COLON, LBRACE, STRVAL ''b'', COLON, NUMBER ''1'', RBRACE] 0 []
       = parse_loop [STRVAL ''a'', COLON, LBRACE, RBRACE] 4 [JsonGroup ''a'' [JsonNumber ''b'' 1]]"
proof -
  have span: "inside_braces 1 [STRVAL ''b'', COLON, NUMBER ''1'']" by simp
  from parse_named_group [OF span, of "[]" "''a''" "[]" "[]"] parse_number_field span
  show ?thesis by simp
qed

text \<open>
  Claim C2, as stated: a token sequence whose opening brace is never matched makes
  \<open>parse\<close> fail with \<open>UnbalancedBraces\<close>. \<open>parse\<close> has no such failure. For the single
  token of \<open>{\<close> and for the tokens of \<open>{"a": "x",\<close> the matching loop ends at the end of
  the sequence at depth 1, and \<open>parse\<close> returns a tree.
\<close>

theorem parse_unbalanced_returns_tree:
  "match_brace [LBRACE] 1 1 = (1, 1)
   \<and> parse [LBRACE] = Inr (JsonGroup root_name [])
   \<and> match_brace [LBRACE, STRVAL ''a'', COLON, STRVAL ''x'', COMMA] 1 1 = (5, 1)
   \<and> parse [LBRACE, STRVAL ''a'', COLON, STRVAL ''x'', COMMA]
       = Inr (JsonGroup root_name [JsonString ''a'' ''x''])"
  by code_simp

text \<open>
  Claim C2, amended: a left brace that is the last token of the sequence, so that the
  matching loop is at the end of the sequence at once with the depth still 1, does not
  make \<open>parse\<close> fail: the guard \<open>if (i >= tokens.size()) break;\<close> ends the iteration with
  the siblings built so far and no node for the brace, in the bare-brace production and in
  the name-colon-brace production alike.
\<close>

theorem parse_trailing_brace:
  assumes "k + 1 = length tokens" and "type (tokens ! k) = TOK_LEFT_BRACE"
  shows "match_brace tokens (k + 1) 1 = (length tokens, 1)
    \<and> parse_loop tokens k objects = Inr objects
    \<and> (\<forall>i. i + 2 = k \<and> type (tokens ! i) = TOK_STR_VAL \<and> type (tokens ! (i + 1)) = TOK_COLON
         \<longrightarrow> parse_loop tokens i objects = Inr objects)"
proof (intro conjI allI impI)
  show "match_brace tokens (k + 1) 1 = (length tokens, 1)"
    using assms(1) by (simp add: match_brace_stop)
  show "parse_loop tokens k objects = Inr objects"
    using assms by (subst parse_loop.simps) simp
next
  fix i
  assume named: "i + 2 = k \<and> type (tokens ! i) = TOK_STR_VAL \<and> type (tokens ! (i + 1)) = TOK_COLON"
  with assms have "i + 3 = length tokens" and "type (tokens ! (i + 2)) = TOK_LEFT_BRACE"
    by simp_all
  with named show "parse_loop tokens i objects = Inr objects"
    by (subst parse_loop.simps) simp
qed

theorem parse_trailing_brace_witness:
  "match_brace [STRVAL ''n'', COLON, LBRACE] 3 1 = (3, 1)
   \<and> parse_loop [STRVAL ''n'', COLON, LBRACE] 2 [] = Inr []
   \<and> parse_loop [STRVAL ''n'', COLON, LBRACE] 0 [] = Inr []"
  using parse_trailing_brace [of 2 "[STRVAL ''n'', COLON, LBRACE]" "[]"]
  by (simp add: eval_nat_numeral)

section \<open>The format of the rendering\<close>

lemma fields_to_string_rest:
  "fields_to_string fields False lvl =
     concat (map (\<lambda>field. '','' @ [CHR ''\<newline>''] @ to_string field (lvl + 1)) fields)
     @ (if fields = [] then [] else [CHR ''\<newline>''])"
  by (induction fields) simp_all

lemma fields_to_string_first:
  "fields_to_string fields True lvl =
    (case fields of
       [] \<Rightarrow> []
     | field # others \<Rightarrow>
         to_string field (lvl + 1)
         @ concat (map (\<lambda>field. '','' @ [CHR ''\<newline>''] @ to_string field (lvl + 1)) others)
         @ [CHR ''\<newline>''])"
  by (cases fields) (simp_all add: fields_to_string_rest)

lemma to_string_indent: "take lvl (to_string object lvl) = replicate lvl (CHR 0x09)"
  by (cases object) (simp_all add: indent_def)

lemma digit_chars: "map (\<lambda>d. char_of (48 + d :: nat)) [0..<10] = ''0123456789''"
  by code_simp

lemma digit_char_of: 
  assumes "d < 10"
  shows "char_of (48 + d :: nat) \<in> set ''0123456789''"
    and "int (of_char (char_of (48 + d :: nat))) - 48 = int d"
proof -
  have "char_of (48 + d) = map (\<lambda>d. char_of (48 + d :: nat)) [0..<10] ! d"
    using assms by simp
  then have "char_of (48 + d) = ''0123456789'' ! d"
    by (simp only: digit_chars)
  moreover have "d < length ''0123456789''"
    using assms by simp
  ultimately show "char_of (48 + d :: nat) \<in> set ''0123456789''"
    by (metis nth_mem)
  have "(48 + d) mod 256 = 48 + d"
    using assms by simp
  then show "int (of_char (char_of (48 + d :: nat))) - 48 = int d"
    by (simp only: of_char_of)
qed


lemma nat_to_string_nonempty: "nat_to_string n \<noteq> []"
  by (subst nat_to_string.simps) simp

lemma nat_to_string_chars: "set (nat_to_string n) \<subseteq> set ''0123456789''"
proof (induction n rule: nat_to_string.induct)
  case (1 n)
  have last_digit: "char_of (48 + n mod 10) \<in> set ''0123456789''"
    by (rule digit_char_of(1)) simp
  show ?case
  proof (cases "n < 10")
    case True
    have "nat_to_string n = [char_of (48 + n)]"
      using True by (subst nat_to_string.simps) simp
    with digit_char_of(1) [OF True] show ?thesis by simp
  next
    case False
    have "nat_to_string n = nat_to_string (n div 10) @ [char_of (48 + n mod 10)]"
      using False by (subst nat_to_string.simps) simp
    with "1.IH" [OF False] last_digit show ?thesis by simp
  qed
qed

lemma nat_to_string_value:
  "foldl (\<lambda>acc c. acc * 10 + (int (of_char c) - 48)) 0 (nat_to_string n) = int n"
proof (induction n rule: nat_to_string.induct)
  case (1 n)
  show ?case
  proof (cases "n < 10")
    case True
    have "nat_to_string n = [char_of (48 + n)]"
      using True by (subst nat_to_string.simps) simp
    with digit_char_of(2) [OF True] show ?thesis by simp
  next
    case False
    have unfold: "nat_to_string n = nat_to_string (n div 10) @ [char_of (48 + n mod 10)]"
      using False by (subst nat_to_string.simps) simp
    have "int (of_char (char_of (48 + n mod 10))) - 48 = int (n mod 10)"
      by (rule digit_char_of(2)) simp
    with "1.IH" [OF False] show ?thesis
      unfolding unfold by (simp add: zmod_int zdiv_int)
  qed
qed

lemma nat_to_string_zero: "nat_to_string n = ''0'' \<Longrightarrow> n = 0"
  using nat_to_string_value [of n] by simp

lemma nat_to_string_leading:
  "hd (nat_to_string n) = CHR ''0'' \<Longrightarrow> nat_to_string n = ''0''"
proof (induction n rule: nat_to_string.induct)
  case (1 n)
  show ?case
  proof (cases "n < 10")
    case True
    have unfold: "nat_to_string n = [char_of (48 + n)]"
      using True by (subst nat_to_string.simps) simp
    with "1.prems" show ?thesis by simp
  next
    case False
    have unfold: "nat_to_string n = nat_to_string (n div 10) @ [char_of (48 + n mod 10)]"
      using False by (subst nat_to_string.simps) simp
    then have "hd (nat_to_string n) = hd (nat_to_string (n div 10))"
      using nat_to_string_nonempty [of "n div 10"] by simp
    with "1.prems" "1.IH" [OF False] have "nat_to_string (n div 10) = ''0''" by simp
    then have "n div 10 = 0" by (rule nat_to_string_zero)
    with False show ?thesis by simp
  qed
qed


lemma int_to_string_decimal:
  "\<exists>digits. int_to_string number = (if number < 0 then ''-'' else []) @ digits
     \<and> digits \<noteq> [] \<and> set digits \<subseteq> set ''0123456789''
     \<and> (hd digits = CHR ''0'') = (digits = ''0'')
     \<and> foldl (\<lambda>acc c. acc * 10 + (int (of_char c) - 48)) 0 digits = \<bar>number\<bar>"
proof (intro exI conjI)
  show "int_to_string number = (if number < 0 then ''-'' else []) @ nat_to_string (nat \<bar>number\<bar>)"
    by (simp add: int_to_string_def)
  show "nat_to_string (nat \<bar>number\<bar>) \<noteq> []"
    by (rule nat_to_string_nonempty)
  show "set (nat_to_string (nat \<bar>number\<bar>)) \<subseteq> set ''0123456789''"
    by (rule nat_to_string_chars)
  show "(hd (nat_to_string (nat \<bar>number\<bar>)) = CHR ''0'') = (nat_to_string (nat \<bar>number\<bar>) = ''0'')"
    using nat_to_string_leading [of "nat \<bar>number\<bar>"] by auto
  show "foldl (\<lambda>acc c. acc * 10 + (int (of_char c) - 48)) 0 (nat_to_string (nat \<bar>number\<bar>)) = \<bar>number\<bar>"
    by (simp add: nat_to_string_value)
qed

lemma to_string_numbers:
  "to_string (JsonNumber ''b'' 120) 2 = [CHR 0x09, CHR 0x09, CHR 0x22] @ ''b'' @ [CHR 0x22] @ '': 120''"
  "to_string (JsonNumber ''c'' (- 7)) 2 = [CHR 0x09, CHR 0x09, CHR 0x22] @ ''c'' @ [CHR 0x22] @ '': -7''"
  by code_simp+

text \<open>
  Claim C6. \<open>to_string\<close> renders a group as its indentation, then the name between double
  quotes, a colon and a space unless the name is the root marker, then an opening brace
  and a line break, then its fields in stored order, each rendered one level deeper on its
  own line with a comma between a field and the next, then the closing brace at the
  group's own indentation; a string field as name and value, each between double quotes,
  with a colon and a space between them; a number field as the quoted name, a colon, a
  space and the value in decimal (a minus sign when negative, then the digits of the
  absolute value without leading zeros), with no quotes. Every rendering starts with one
  tab per level.
\<close>

theorem to_string_format:
  "to_string (JsonGroup name fields) lvl =
      replicate lvl (CHR 0x09)
      @ (if name = ''__ROOT__'' then [] else [CHR 0x22] @ name @ [CHR 0x22] @ '': '')
      @ ''{'' @ [CHR ''\<newline>'']
      @ (case fields of
           [] \<Rightarrow> []
         | field # others \<Rightarrow>
             to_string field (lvl + 1)
             @ concat (map (\<lambda>field. '','' @ [CHR ''\<newline>''] @ to_string field (lvl + 1)) others)
             @ [CHR ''\<newline>''])
      @ replicate lvl (CHR 0x09) @ ''}''
   \<and> to_string (JsonString name str) lvl =
      replicate lvl (CHR 0x09) @ [CHR 0x22] @ name @ [CHR 0x22] @ '': ''
      @ [CHR 0x22] @ str @ [CHR 0x22]
   \<and> (\<exists>digits.
        to_string (JsonNumber name number) lvl =
          replicate lvl (CHR 0x09) @ [CHR 0x22] @ name @ [CHR 0x22] @ '': ''
          @ (if number < 0 then ''-'' else []) @ digits
        \<and> digits \<noteq> [] \<and> set digits \<subseteq> set ''0123456789''
        \<and> (hd digits = CHR ''0'') = (digits = ''0'')
        \<and> foldl (\<lambda>acc c. acc * 10 + (int (of_char c) - 48)) 0 digits = \<bar>number\<bar>)
   \<and> take lvl (to_string object lvl) = replicate lvl (CHR 0x09)"
proof -
  obtain digits where digits:
    "int_to_string number = (if number < 0 then ''-'' else []) @ digits"
    "digits \<noteq> []" "set digits \<subseteq> set ''0123456789''"
    "(hd digits = CHR ''0'') = (digits = ''0'')"
    "foldl (\<lambda>acc c. acc * 10 + (int (of_char c) - 48)) 0 digits = \<bar>number\<bar>"
    using int_to_string_decimal [of number] by blast
  have number: "\<exists>digits.
        to_string (JsonNumber name number) lvl =
          replicate lvl (CHR 0x09) @ [CHR 0x22] @ name @ [CHR 0x22] @ '': ''
          @ (if number < 0 then ''-'' else []) @ digits
        \<and> digits \<noteq> [] \<and> set digits \<subseteq> set ''0123456789''
        \<and> (hd digits = CHR ''0'') = (digits = ''0'')
        \<and> foldl (\<lambda>acc c. acc * 10 + (int (of_char c) - 48)) 0 digits = \<bar>number\<bar>"
  proof (intro exI conjI)
    show "to_string (JsonNumber name number) lvl =
          replicate lvl (CHR 0x09) @ [CHR 0x22] @ name @ [CHR 0x22] @ '': ''
          @ (if number < 0 then ''-'' else []) @ digits"
      using digits(1) by (simp add: indent_def quoted_def)
  qed (rule digits(2) digits(3) digits(4) digits(5))+
  have group_string:
    "to_string (JsonGroup name fields) lvl =
      replicate lvl (CHR 0x09)
      @ (if name = ''__ROOT__'' then [] else [CHR 0x22] @ name @ [CHR 0x22] @ '': '')
      @ ''{'' @ [CHR ''\<newline>'']
      @ (case fields of
           [] \<Rightarrow> []
         | field # others \<Rightarrow>
             to_string field (lvl + 1)
             @ concat (map (\<lambda>field. '','' @ [CHR ''\<newline>''] @ to_string field (lvl + 1)) others)
             @ [CHR ''\<newline>''])
      @ replicate lvl (CHR 0x09) @ ''}''"
    "to_string (JsonString name str) lvl =
      replicate lvl (CHR 0x09) @ [CHR 0x22] @ name @ [CHR 0x22] @ '': ''
      @ [CHR 0x22] @ str @ [CHR 0x22]"
    by (simp_all add: fields_to_string_first indent_def quoted_def root_name_def)
  from group_string number to_string_indent [of lvl object] show ?thesis
    by (intro conjI)
qed

theorem to_string_format_witness:
  "to_string (JsonGroup ''__ROOT__''
       [JsonString ''a'' ''x'', JsonGroup ''g'' [JsonNumber ''b'' 120, JsonNumber ''c'' (- 7)]]) 0 =
     ''{'' @ [CHR ''\<newline>'']
     @ [CHR 0x09, CHR 0x22] @ ''a'' @ [CHR 0x22] @ '': '' @ [CHR 0x22] @ ''x'' @ [CHR 0x22]
     @ '','' @ [CHR ''\<newline>'']
     @ [CHR 0x09, CHR 0x22] @ ''g'' @ [CHR 0x22] @ '': {'' @ [CHR ''\<newline>'']
     @ [CHR 0x09, CHR 0x09, CHR 0x22] @ ''b'' @ [CHR 0x22] @ '': 120'' @ '','' @ [CHR ''\<newline>'']
     @ [CHR 0x09, CHR 0x09, CHR 0x22] @ ''c'' @ [CHR 0x22] @ '': -7'' @ [CHR ''\<newline>'']
     @ [CHR 0x09] @ ''}'' @ [CHR ''\<newline>'']
     @ ''}''"
  using
    to_string_format [of "''__ROOT__''"
      "[JsonString ''a'' ''x'', JsonGroup ''g'' [JsonNumber ''b'' 120, JsonNumber ''c'' (- 7)]]" 0]
    to_string_format [of "''a''" "[]" 1 "''x''"]
    to_string_format [of "''g''" "[JsonNumber ''b'' 120, JsonNumber ''c'' (- 7)]" 1]
    to_string_numbers
  by (simp add: eval_nat_numeral del: to_string.simps)

text \<open>
  Claim C1. The claim: for every text of the dialect, rendering the parse of the scan
  gives back the same names, nesting and values. The number branch of \<open>scan\<close> breaks
  this (see C3). For \<open>{"a": 1}\<close> the closing brace is lost and \<open>parse\<close> reads past the end
  of an extracted span. For \<open>{"a":1 }\<close> the number token is \<open>":1"\<close>, which \<open>std::stoi\<close>
  rejects. For \<open>{"a": {"b": 1}, "c": {}}\<close> the rendering is that of \<open>{"a": {"b": 1}}\<close>:
  the field \<open>c\<close> is gone.
\<close>

theorem round_trip_example:
  "render_parse_scan (''{'' @ quoted ''a'' @ '': 1}'') = Inl OutOfBounds
   \<and> render_parse_scan (''{'' @ quoted ''a'' @ '':1 }'') = Inl InvalidNumber
   \<and> render_parse_scan
        (''{'' @ quoted ''a'' @ '': {'' @ quoted ''b'' @ '': 1}, '' @ quoted ''c'' @ '': {}}'')
       = Inr (to_string (JsonGroup root_name [JsonGroup ''a'' [JsonNumber ''b'' 1]]) 0)"
  by code_simp

end
